theory Spec2Isabelle
  imports Complex_Main "HOL-Library.Log_Nat"
begin

section \<open>JavaScript dates\<close>

text \<open>
  The routes compute with JavaScript \<open>Date\<close> objects through their local-time getters and
  setters. A date is modelled by the fields those getters return: the full year, the month
  (0 = January .. 11 = December), the day of the month, and the time within the day in
  milliseconds (hours, minutes, seconds and milliseconds together), which none of the setters
  used here changes. The local time zone is taken to have a fixed offset (a server running in
  UTC), so a local day always has 86400000 ms. The fields are unbounded integers; the bound of
  8.64e15 ms on the time value of a JavaScript date is \<open>TimeClip\<close> below, and a date object
  whose time value is \<open>NaN\<close> (an invalid date) is \<open>None\<close>.
\<close>

record date =
  getFullYear :: int
  getMonth :: int
  getDate :: int
  getTimeInDay :: int

definition msPerDay :: int where
  "msPerDay = 86400000"

definition InLeapYear :: "int \<Rightarrow> bool" where
  "InLeapYear y = (y mod 4 = 0 \<and> (y mod 100 \<noteq> 0 \<or> y mod 400 = 0))"

definition DaysInMonth :: "int \<Rightarrow> int \<Rightarrow> int" where
  "DaysInMonth y m =
     (if m = 1 then (if InLeapYear y then 29 else 28)
      else if m = 3 \<or> m = 5 \<or> m = 8 \<or> m = 10 then 30
      else 31)"

text \<open>ECMAScript's \<open>DayFromYear\<close>: the day number of 1 January of year \<open>y\<close>, counted from
  1 January 1970.\<close>

definition DayFromYear :: "int \<Rightarrow> int" where
  "DayFromYear y =
     365 * (y - 1970) + (y - 1969) div 4 - (y - 1901) div 100 + (y - 1601) div 400"

text \<open>The number of days of year \<open>y\<close> that lie before the first day of month \<open>m\<close>.\<close>

definition MonthStart :: "int \<Rightarrow> int \<Rightarrow> int" where
  "MonthStart y m =
     (if m = 0 then 0 else if m = 1 then 31
      else (if InLeapYear y then 1 else 0) +
        (if m = 2 then 59 else if m = 3 then 90 else if m = 4 then 120
         else if m = 5 then 151 else if m = 6 then 181 else if m = 7 then 212
         else if m = 8 then 243 else if m = 9 then 273 else if m = 10 then 304
         else 334))"

definition calendar_date :: "date \<Rightarrow> bool" where
  "calendar_date d =
     (0 \<le> getMonth d \<and> getMonth d \<le> 11 \<and>
      1 \<le> getDate d \<and> getDate d \<le> DaysInMonth (getFullYear d) (getMonth d) \<and>
      0 \<le> getTimeInDay d \<and> getTimeInDay d < msPerDay)"

text \<open>\<open>Day\<close> is the day number of a date, \<open>getTime\<close> its time value in milliseconds since
  the epoch, and \<open>getDay\<close> its weekday (0 = Sunday); 1 January 1970 was a Thursday.\<close>

definition Day :: "date \<Rightarrow> int" where
  "Day d = DayFromYear (getFullYear d) + MonthStart (getFullYear d) (getMonth d) + (getDate d - 1)"

definition getTime :: "date \<Rightarrow> int" where
  "getTime d = Day d * msPerDay + getTimeInDay d"

definition getDay :: "date \<Rightarrow> int" where
  "getDay d = (Day d + 4) mod 7"

text \<open>ECMAScript's \<open>TimeClip\<close>: a time value beyond 8.64e15 ms on either side of the epoch
  is replaced by \<open>NaN\<close>. The last day a date can hold is 13 September 275760 and the
  first is 20 April -271821, both at midnight.\<close>

definition maxTime :: int where
  "maxTime = 8640000000000000"

definition TimeClip :: "date \<Rightarrow> date option" where
  "TimeClip d = (if \<bar>getTime d\<bar> \<le> maxTime then Some d else None)"

text \<open>The values a valid JavaScript date can have.\<close>

definition valid_date :: "date \<Rightarrow> bool" where
  "valid_date d = (calendar_date d \<and> \<bar>getTime d\<bar> \<le> maxTime)"

text \<open>
  ECMAScript's \<open>MakeDay(year, month, date)\<close> accepts a month and a day outside their ranges
  and carries the excess over: the month is reduced modulo 12 into the year, and the day is
  counted from the first day of that month. \<open>carry_day\<close> walks month by month until the day
  fits.
\<close>

function carry_day :: "int \<Rightarrow> int \<Rightarrow> int \<Rightarrow> int \<times> int \<times> int" where
  "carry_day y m d =
     (if d < 1 then
        (let y' = (if m = 0 then y - 1 else y); m' = (if m = 0 then 11 else m - 1)
         in carry_day y' m' (d + DaysInMonth y' m'))
      else if DaysInMonth y m < d then
        carry_day (if m = 11 then y + 1 else y) (if m = 11 then 0 else m + 1)
          (d - DaysInMonth y m)
      else (y, m, d))"
  by pat_completeness auto
termination
  by (relation "measure (\<lambda>(y, m, d). nat (if d < 1 then 33 - d else d))")
     (auto simp: DaysInMonth_def Let_def)

declare carry_day.simps [simp del]

definition MakeDay :: "int \<Rightarrow> int \<Rightarrow> int \<Rightarrow> int \<times> int \<times> int" where
  "MakeDay y m d = carry_day (y + m div 12) (m mod 12) d"

definition with_day :: "date \<Rightarrow> int \<times> int \<times> int \<Rightarrow> date" where
  "with_day dt ymd =
     (case ymd of (y, m, d) \<Rightarrow> dt\<lparr>getFullYear := y, getMonth := m, getDate := d\<rparr>)"

text \<open>
  The setters compute the new time value with \<open>MakeDate (MakeDay ...) (TimeWithinDay t)\<close> and
  store its \<open>TimeClip\<close>. \<open>MakeDate_of\<close> is the date before the clip; each setter is given a
  valid date here (on an invalid one \<open>setDate\<close> and \<open>setMonth\<close> leave it invalid, which the
  caller below writes out).
\<close>

definition MakeDate_setDate :: "int \<Rightarrow> date \<Rightarrow> date" where
  "MakeDate_setDate d dt = with_day dt (MakeDay (getFullYear dt) (getMonth dt) d)"

definition MakeDate_setMonth :: "int \<Rightarrow> date \<Rightarrow> date" where
  "MakeDate_setMonth m dt = with_day dt (MakeDay (getFullYear dt) m (getDate dt))"

definition MakeDate_setFullYear :: "int \<Rightarrow> date \<Rightarrow> date" where
  "MakeDate_setFullYear y dt = with_day dt (MakeDay y (getMonth dt) (getDate dt))"

definition setDate :: "int \<Rightarrow> date \<Rightarrow> date option" where
  "setDate d dt = TimeClip (MakeDate_setDate d dt)"

definition setMonth :: "int \<Rightarrow> date \<Rightarrow> date option" where
  "setMonth m dt = TimeClip (MakeDate_setMonth m dt)"

definition setFullYear :: "int \<Rightarrow> date \<Rightarrow> date option" where
  "setFullYear y dt = TimeClip (MakeDate_setFullYear y dt)"

text \<open>\<open>new Date(year, month, day)\<close>: local midnight of that day; a year from 0 to 99 stands
  for 1900 + year; the time value is clipped as well.\<close>

definition MakeDate_new :: "int \<Rightarrow> int \<Rightarrow> int \<Rightarrow> date" where
  "MakeDate_new y m d =
     with_day \<lparr>getFullYear = 0, getMonth = 0, getDate = 1, getTimeInDay = 0\<rparr>
       (MakeDay (if 0 \<le> y \<and> y \<le> 99 then 1900 + y else y) m d)"

definition newDate :: "int \<Rightarrow> int \<Rightarrow> int \<Rightarrow> date option" where
  "newDate y m d = TimeClip (MakeDate_new y m d)"


section \<open>The next execution of a recurring definition (routes/recurring.js)\<close>

datatype error =
    TypeError | ValidationError | InvalidAmount | GoalNotActive | ContributionNotFound
  | TargetDateNotAfterStart

datatype frequency = Daily | Weekly | Monthly | Yearly

text \<open>JavaScript's \<open>%\<close> truncates towards zero: the result has the sign of the dividend.\<close>

definition js_rem :: "int \<Rightarrow> int \<Rightarrow> int" where
  "js_rem a b = sgn a * (\<bar>a\<bar> mod \<bar>b\<bar>)"

text \<open>\<open>String.prototype.split\<close> with a one-character separator: the pieces between the
  separators, at least one piece.\<close>

fun split_on :: "char \<Rightarrow> string \<Rightarrow> string list" where
  "split_on c [] = [[]]"
| "split_on c (x # xs) =
     (if x = c then [] # split_on c xs
      else (case split_on c xs of [] \<Rightarrow> [[x]] | p # ps \<Rightarrow> (x # p) # ps))"

text \<open>
  \<open>parseInt\<close> without a radix: leading white space is skipped, a sign is read, the prefix
  \<open>0x\<close> selects base 16, and the longest run of digits is the value; no digit at all gives
  \<open>NaN\<close>, which is \<open>None\<close> here. Strings are ASCII.
\<close>

definition is_space :: "char \<Rightarrow> bool" where
  "is_space c = (c = CHR '' '' \<or> (9 \<le> (of_char c :: nat) \<and> (of_char c :: nat) \<le> 13))"

definition digit_val :: "char \<Rightarrow> nat option" where
  "digit_val c =
     (let n = (of_char c :: nat)
      in if 48 \<le> n \<and> n \<le> 57 then Some (n - 48)
         else if 97 \<le> n \<and> n \<le> 102 then Some (n - 87)
         else if 65 \<le> n \<and> n \<le> 70 then Some (n - 55)
         else None)"

fun read_digits :: "nat \<Rightarrow> string \<Rightarrow> nat option \<Rightarrow> nat option" where
  "read_digits radix [] acc = acc"
| "read_digits radix (c # cs) acc =
     (case digit_val c of
        None \<Rightarrow> acc
      | Some v \<Rightarrow>
          if v < radix
          then read_digits radix cs (Some ((case acc of None \<Rightarrow> 0 | Some a \<Rightarrow> a) * radix + v))
          else acc)"

definition parseInt :: "string \<Rightarrow> int option" where
  "parseInt s =
     (let s1 = dropWhile is_space s;
          neg = (case s1 of [] \<Rightarrow> False | c # _ \<Rightarrow> c = CHR ''-'');
          s2 = (case s1 of [] \<Rightarrow> [] | c # cs \<Rightarrow> if c = CHR ''-'' \<or> c = CHR ''+'' then cs else s1);
          hex = (case s2 of
                   a # b # _ \<Rightarrow> a = CHR ''0'' \<and> (b = CHR ''x'' \<or> b = CHR ''X'')
                 | _ \<Rightarrow> False);
          v = (if hex then read_digits 16 (drop 2 s2) None else read_digits 10 s2 None)
      in case v of None \<Rightarrow> None | Some n \<Rightarrow> Some (if neg then - int n else int n))"

text \<open>
  \<open>calculateNextExecution(currentDate, frequency, dayOfWeek, dayOfMonth, dayOfYear)\<close>.
  An anchor that the definition does not carry is \<open>undefined\<close> in the source and \<open>None\<close>
  here. The result \<open>Inr None\<close> is JavaScript's invalid date: a setter was given \<open>NaN\<close>, or
  a time value left the range of \<open>TimeClip\<close>; once \<open>next\<close> is invalid its getters return \<open>NaN\<close>
  and \<open>setDate\<close> and \<open>setMonth\<close> leave it invalid. \<open>Inl TypeError\<close> is the exception of
  \<open>dayOfYear.split\<close> on \<open>undefined\<close>.
\<close>

definition calculateNextExecution ::
  "date \<Rightarrow> frequency \<Rightarrow> int option \<Rightarrow> int option \<Rightarrow> string option \<Rightarrow> error + date option" where
  "calculateNextExecution currentDate freq dayOfWeek dayOfMonth dayOfYear =
     (let next = currentDate in
      case freq of
        Daily \<Rightarrow> Inr (setDate (getDate next + 1) next)
      | Weekly \<Rightarrow>
          (let daysUntilTarget =
                 (case dayOfWeek of None \<Rightarrow> None
                  | Some w \<Rightarrow> Some (js_rem (w + 7 - getDay next) 7));
               step = (case daysUntilTarget of None \<Rightarrow> 7 | Some k \<Rightarrow> if k = 0 then 7 else k)
           in Inr (setDate (getDate next + step) next))
      | Monthly \<Rightarrow>
          (case setMonth (getMonth next + 1) next of
             None \<Rightarrow> Inr None
           | Some next1 \<Rightarrow>
               (case newDate (getFullYear next1) (getMonth next1 + 1) 0 of
                  None \<Rightarrow> Inr None
                | Some lastDate \<Rightarrow>
                    (let lastDay = getDate lastDate
                     in case dayOfMonth of
                          None \<Rightarrow> Inr None
                        | Some k \<Rightarrow> Inr (setDate (min k lastDay) next1))))
      | Yearly \<Rightarrow>
          (case dayOfYear of
             None \<Rightarrow> Inl TypeError
           | Some s \<Rightarrow>
               (let parts = split_on CHR ''-'' s;
                    month = (case parts of [] \<Rightarrow> None | p # _ \<Rightarrow> parseInt p);
                    day = (case parts of _ # q # _ \<Rightarrow> parseInt q | _ \<Rightarrow> None)
                in case setFullYear (getFullYear next + 1) next of
                     None \<Rightarrow> Inr None
                   | Some next1 \<Rightarrow>
                       (case month of
                          None \<Rightarrow> Inr None
                        | Some pm \<Rightarrow>
                            (case setMonth (pm - 1) next1 of
                               None \<Rightarrow> Inr None
                             | Some next2 \<Rightarrow>
                                 (case day of
                                    None \<Rightarrow> Inr None
                                  | Some pd \<Rightarrow> Inr (setDate pd next2)))))))"

text \<open>The anchors for which the routine is meant: a weekday 0-6 for a weekly schedule, a
  day of the month 1-31 for a monthly one, and a string \<open>MM-DD\<close> with month 1-12 and day 1-31
  for a yearly one.\<close>

definition valid_anchor ::
  "frequency \<Rightarrow> int option \<Rightarrow> int option \<Rightarrow> string option \<Rightarrow> bool" where
  "valid_anchor freq dayOfWeek dayOfMonth dayOfYear =
     (case freq of
        Daily \<Rightarrow> True
      | Weekly \<Rightarrow> (case dayOfWeek of None \<Rightarrow> False | Some w \<Rightarrow> 0 \<le> w \<and> w \<le> 6)
      | Monthly \<Rightarrow> (case dayOfMonth of None \<Rightarrow> False | Some k \<Rightarrow> 1 \<le> k \<and> k \<le> 31)
      | Yearly \<Rightarrow>
          (case dayOfYear of
             None \<Rightarrow> False
           | Some s \<Rightarrow>
               (case split_on CHR ''-'' s of
                  [p, q] \<Rightarrow>
                    (case (parseInt p, parseInt q) of
                       (Some pm, Some pd) \<Rightarrow> 1 \<le> pm \<and> pm \<le> 12 \<and> 1 \<le> pd \<and> pd \<le> 31
                     | _ \<Rightarrow> False)
                | _ \<Rightarrow> False)))"

text \<open>Two abbreviations for the proofs: the day number of the first day of a month, and the
  number of days a weekly schedule advances.\<close>

definition MonthDay :: "int \<Rightarrow> int \<Rightarrow> int" where
  "MonthDay y m = DayFromYear y + MonthStart y m"

definition weekly_step :: "int \<Rightarrow> date \<Rightarrow> int" where
  "weekly_step w cur = (let k = js_rem (w + 7 - getDay cur) 7 in if k = 0 then 7 else k)"

section \<open>Months between two dates (POST / of the goals routes)\<close>

text \<open>The handler that creates a goal computes \<open>monthsDiff\<close> from \<open>now\<close> and the
  goal's target date, in three assignments; the handler that updates a goal repeats them.\<close>

definition monthsDiff :: "date \<Rightarrow> date \<Rightarrow> int" where
  "monthsDiff now target =
     (let m0 = (getFullYear target - getFullYear now) * 12 + (getMonth target - getMonth now);
          m1 = (if getDate now < getDate target then m0 + 1 else m0)
      in max m1 1)"

section \<open>Documents and queries\<close>

text \<open>
  The amounts of transactions, recurring definitions and budgets and the counters are
  JavaScript numbers; they are modelled as integers, on which JavaScript's arithmetic is exact
  (below \<open>2^53\<close>). Object ids are strings. A field that a document does not carry is \<open>None\<close>
  in the record and \<open>Undefined\<close> as a value.
\<close>

type_synonym objectId = string

datatype jsval = Undefined | Bool bool | Num int | Str string | Oid objectId | DateVal date

text \<open>
  A MongoDB filter is a JavaScript object literal: a list of properties in source order.
  A property value is a plain value (equality), an object of operators, the array of
  alternatives of \<open>$or\<close>, or the comparison of two field paths under \<open>$expr\<close> with \<open>$lt\<close>.
\<close>

datatype qop = Gte jsval | Lte jsval | Ne jsval | Exists bool

datatype qval =
    Is jsval
  | Ops "qop list"
  | Or "(string \<times> qval) list list"
  | ExprLt string string

type_synonym query = "(string \<times> qval) list"

text \<open>Evaluating an object literal defines its properties from left to right; defining a
  name again replaces the value the name had.\<close>

fun set_property :: "string \<Rightarrow> 'a \<Rightarrow> (string \<times> 'a) list \<Rightarrow> (string \<times> 'a) list" where
  "set_property k v [] = [(k, v)]"
| "set_property k v ((k', v') # ps) =
     (if k' = k then (k, v) # ps else (k', v') # set_property k v ps)"

definition object_literal :: "(string \<times> 'a) list \<Rightarrow> (string \<times> 'a) list" where
  "object_literal props = foldl (\<lambda>obj (k, v). set_property k v obj) [] props"

text \<open>The query operators \<open>$lte\<close> and \<open>$gte\<close> compare values of one type only. Numbers
  and dates are the types this program compares; the order of the other types is left out.\<close>

fun op_lte :: "jsval \<Rightarrow> jsval \<Rightarrow> bool" where
  "op_lte (Num a) (Num b) = (a \<le> b)"
| "op_lte (DateVal a) (DateVal b) = (getTime a \<le> getTime b)"
| "op_lte _ _ = False"

fun op_holds :: "jsval \<Rightarrow> qop \<Rightarrow> bool" where
  "op_holds v (Gte q) = op_lte q v"
| "op_holds v (Lte q) = op_lte v q"
| "op_holds v (Ne q) = (v \<noteq> q)"
| "op_holds v (Exists b) = ((v \<noteq> Undefined) = b)"

text \<open>An aggregation expression compares values of different types by the BSON order of
  their types; a missing field comes first.\<close>

fun bson_rank :: "jsval \<Rightarrow> nat" where
  "bson_rank Undefined = 0"
| "bson_rank (Num _) = 1"
| "bson_rank (Str _) = 2"
| "bson_rank (Oid _) = 3"
| "bson_rank (Bool _) = 4"
| "bson_rank (DateVal _) = 5"

fun value_lt :: "jsval \<Rightarrow> jsval \<Rightarrow> bool" where
  "value_lt (Num a) (Num b) = (a < b)"
| "value_lt (DateVal a) (DateVal b) = (getTime a < getTime b)"
| "value_lt (Bool a) (Bool b) = (\<not> a \<and> b)"
| "value_lt _ _ = False"

definition expr_lt :: "jsval \<Rightarrow> jsval \<Rightarrow> bool" where
  "expr_lt a b = (bson_rank a < bson_rank b \<or> (bson_rank a = bson_rank b \<and> value_lt a b))"

fun holds :: "(string \<Rightarrow> jsval) \<Rightarrow> qval \<Rightarrow> string \<Rightarrow> bool" where
  "holds doc (Is v) k = (doc k = v)"
| "holds doc (Ops ops) k = list_all (op_holds (doc k)) ops"
| "holds doc (Or alts) k =
     list_ex (\<lambda>alt. list_all (\<lambda>p. holds doc (snd p) (fst p)) alt) alts"
| "holds doc (ExprLt f g) k = expr_lt (doc f) (doc g)"

definition matches :: "(string \<Rightarrow> jsval) \<Rightarrow> query \<Rightarrow> bool" where
  "matches doc q = list_all (\<lambda>p. holds doc (snd p) (fst p)) (object_literal q)"

definition find_docs :: "('d \<Rightarrow> string \<Rightarrow> jsval) \<Rightarrow> query \<Rightarrow> 'd list \<Rightarrow> 'd list" where
  "find_docs field_of q coll = filter (\<lambda>d. matches (field_of d) q) coll"

definition opt :: "('a \<Rightarrow> jsval) \<Rightarrow> 'a option \<Rightarrow> jsval" where
  "opt f x = (case x of None \<Rightarrow> Undefined | Some v \<Rightarrow> f v)"

subsection \<open>Recurring definitions (models/RecurringTransaction.js)\<close>

datatype txtype = Income | Expense

definition txtype_str :: "txtype \<Rightarrow> string" where
  "txtype_str t = (case t of Income \<Rightarrow> ''income'' | Expense \<Rightarrow> ''expense'')"

record recurring =
  r_id :: objectId
  r_userId :: objectId
  r_type :: txtype
  r_amount :: int
  r_category :: string
  r_description :: string
  r_frequency :: frequency
  r_dayOfWeek :: "int option"
  r_dayOfMonth :: "int option"
  r_dayOfYear :: "string option"
  r_startDate :: date
  r_endDate :: "date option"
  r_isActive :: bool
  r_nextExecution :: date
  r_lastExecution :: "date option"
  r_executionCount :: int
  r_maxExecutions :: "int option"

definition recurring_field :: "recurring \<Rightarrow> string \<Rightarrow> jsval" where
  "recurring_field r f =
     (if f = ''_id'' then Oid (r_id r)
      else if f = ''userId'' then Oid (r_userId r)
      else if f = ''type'' then Str (txtype_str (r_type r))
      else if f = ''amount'' then Num (r_amount r)
      else if f = ''category'' then Str (r_category r)
      else if f = ''description'' then Str (r_description r)
      else if f = ''dayOfWeek'' then opt Num (r_dayOfWeek r)
      else if f = ''dayOfMonth'' then opt Num (r_dayOfMonth r)
      else if f = ''dayOfYear'' then opt Str (r_dayOfYear r)
      else if f = ''startDate'' then DateVal (r_startDate r)
      else if f = ''endDate'' then opt DateVal (r_endDate r)
      else if f = ''isActive'' then Bool (r_isActive r)
      else if f = ''nextExecution'' then DateVal (r_nextExecution r)
      else if f = ''lastExecution'' then opt DateVal (r_lastExecution r)
      else if f = ''executionCount'' then Num (r_executionCount r)
      else if f = ''maxExecutions'' then opt Num (r_maxExecutions r)
      else Undefined)"

subsection \<open>Transactions (models/Transaction.js)\<close>

text \<open>The two transaction schemas of the repository differ: one has a \<open>category\<close> label and
  a \<open>recurringFrequency\<close>, the other a \<open>categoryId\<close> reference, a \<open>status\<close> and the
  soft-delete flag \<open>isDeleted\<close>. The record carries the fields of both; a document has the
  ones its schema declares. Neither schema declares a path \<open>recurringId\<close>.\<close>

datatype txstatus = Completed | Pending | Cancelled

definition frequency_str :: "frequency \<Rightarrow> string" where
  "frequency_str q =
     (case q of Daily \<Rightarrow> ''daily'' | Weekly \<Rightarrow> ''weekly'' | Monthly \<Rightarrow> ''monthly''
      | Yearly \<Rightarrow> ''yearly'')"

definition txstatus_str :: "txstatus \<Rightarrow> string" where
  "txstatus_str s =
     (case s of Completed \<Rightarrow> ''completed'' | Pending \<Rightarrow> ''pending'' | Cancelled \<Rightarrow> ''cancelled'')"

record transaction =
  t_userId :: objectId
  t_type :: txtype
  t_amount :: int
  t_category :: "string option"
  t_categoryId :: "objectId option"
  t_description :: string
  t_date :: date
  t_isRecurring :: bool
  t_recurringFrequency :: "frequency option"
  t_status :: "txstatus option"
  t_isDeleted :: "bool option"

definition transaction_field :: "transaction \<Rightarrow> string \<Rightarrow> jsval" where
  "transaction_field t f =
     (if f = ''userId'' then Oid (t_userId t)
      else if f = ''type'' then Str (txtype_str (t_type t))
      else if f = ''amount'' then Num (t_amount t)
      else if f = ''category'' then opt Str (t_category t)
      else if f = ''categoryId'' then opt Oid (t_categoryId t)
      else if f = ''description'' then Str (t_description t)
      else if f = ''date'' then DateVal (t_date t)
      else if f = ''isRecurring'' then Bool (t_isRecurring t)
      else if f = ''recurringFrequency'' then opt (\<lambda>q. Str (frequency_str q)) (t_recurringFrequency t)
      else if f = ''status'' then opt (\<lambda>s. Str (txstatus_str s)) (t_status t)
      else if f = ''isDeleted'' then opt Bool (t_isDeleted t)
      else Undefined)"

subsection \<open>Budgets (the Budget schema)\<close>

record budget =
  b_id :: objectId
  b_userId :: objectId
  b_categoryId :: objectId
  b_amount :: int
  b_startDate :: date
  b_endDate :: date
  b_spent :: int
  b_isActive :: bool


text \<open>\<open>budgetSchema.methods.calculateSpent\<close>: an aggregation of the transactions with a
  \<open>$match\<close> stage and a \<open>$group\<close> stage that sums \<open>amount\<close> into one group; the group stage
  yields no document for an empty input.\<close>

definition spent_match :: "budget \<Rightarrow> query" where
  "spent_match b =
     [(''userId'', Is (Oid (b_userId b))),
      (''categoryId'', Is (Oid (b_categoryId b))),
      (''type'', Is (Str ''expense'')),
      (''status'', Is (Str ''completed'')),
      (''isDeleted'', Ops [Ne (Bool True)]),
      (''date'', Ops [Gte (DateVal (b_startDate b)), Lte (DateVal (b_endDate b))])]"

definition group_total :: "transaction list \<Rightarrow> int list" where
  "group_total docs = (if docs = [] then [] else [sum_list (map t_amount docs)])"

definition calculateSpent :: "budget \<Rightarrow> transaction list \<Rightarrow> budget" where
  "calculateSpent b txs =
     (let result = group_total (find_docs transaction_field (spent_match b) txs)
      in b\<lparr>b_spent := (case result of [] \<Rightarrow> 0 | tot # _ \<Rightarrow> tot)\<rparr>)"

text \<open>The condition of the specification for a transaction to count for a budget.\<close>

definition counts_for :: "budget \<Rightarrow> transaction \<Rightarrow> bool" where
  "counts_for b t =
     (t_userId t = b_userId b \<and> t_categoryId t = Some (b_categoryId b) \<and> t_type t = Expense
      \<and> t_status t = Some Completed \<and> t_isDeleted t \<noteq> Some True
      \<and> getTime (b_startDate b) \<le> getTime (t_date t)
      \<and> getTime (t_date t) \<le> getTime (b_endDate b))"

section \<open>The execute pass (POST /execute, routes/recurring.js)\<close>

record store =
  recurrings :: "recurring list"
  transactions :: "transaction list"
  budgets :: "budget list"

text \<open>The filter of the pass, property by property as the source writes it; the name
  \<open>$or\<close> is defined twice.\<close>

definition pending_query :: "objectId \<Rightarrow> date \<Rightarrow> query" where
  "pending_query userId now =
     [(''userId'', Is (Oid userId)),
      (''isActive'', Is (Bool True)),
      (''nextExecution'', Ops [Lte (DateVal now)]),
      (''$or'', Or [[(''endDate'', Ops [Exists False])],
                    [(''endDate'', Ops [Gte (DateVal now)])]]),
      (''$or'', Or [[(''maxExecutions'', Ops [Exists False])],
                    [(''$expr'', ExprLt ''executionCount'' ''maxExecutions'')]])]"

definition pendingRecurring :: "objectId \<Rightarrow> date \<Rightarrow> store \<Rightarrow> recurring list" where
  "pendingRecurring userId now st =
     find_docs recurring_field (pending_query userId now) (recurrings st)"

text \<open>The filter the specification describes: active, due, not past its end date, and below
  its cap of executions.\<close>

definition spec_due :: "objectId \<Rightarrow> date \<Rightarrow> recurring \<Rightarrow> bool" where
  "spec_due userId now r =
     (r_userId r = userId \<and> r_isActive r \<and> getTime (r_nextExecution r) \<le> getTime now
      \<and> (case r_endDate r of None \<Rightarrow> True | Some e \<Rightarrow> getTime now \<le> getTime e)
      \<and> (case r_maxExecutions r of None \<Rightarrow> True | Some mx \<Rightarrow> r_executionCount r < mx))"

text \<open>
  The transaction document the loop builds from a definition, \<open>new Transaction({...})\<close>.
  The routes of recurring definitions belong to the variant of the application whose
  transactions have a \<open>category\<close> label, and the document is the one that schema (the first of
  models/Transaction.js) yields: mongoose's strict mode keeps only the paths the schema
  declares, so the \<open>recurringId\<close> that the loop passes is dropped; the loop sets \<open>isRecurring\<close>
  and passes no \<open>recurringFrequency\<close>; that schema has no \<open>categoryId\<close>, \<open>status\<close> or
  \<open>isDeleted\<close>. (Under the other schema the \<open>category\<close> label would be dropped as well.)
\<close>

definition materialize :: "recurring \<Rightarrow> transaction" where
  "materialize r =
     \<lparr>t_userId = r_userId r,
      t_type = r_type r,
      t_amount = r_amount r,
      t_category = Some (r_category r),
      t_categoryId = None,
      t_description = r_description r @ '' (Recorrente)'',
      t_date = r_nextExecution r,
      t_isRecurring = True,
      t_recurringFrequency = None,
      t_status = None,
      t_isDeleted = None\<rparr>"

text \<open>
  The validators of that schema, which \<open>transaction.save()\<close> runs: \<open>amount\<close> has \<open>min: 0\<close>,
  \<open>category\<close> and \<open>description\<close> are required (an empty string does not satisfy \<open>required\<close>),
  and \<open>recurringFrequency\<close> is required when \<open>isRecurring\<close> is set
  (\<open>required: function() { return this.isRecurring; }\<close>). The owner and the type are required
  too and always present in the record.
\<close>

definition flat_schema_accepts :: "transaction \<Rightarrow> bool" where
  "flat_schema_accepts t =
     (0 \<le> t_amount t
      \<and> (case t_category t of None \<Rightarrow> False | Some c \<Rightarrow> c \<noteq> [])
      \<and> t_description t \<noteq> []
      \<and> (if t_isRecurring t then t_recurringFrequency t \<noteq> None else True))"

text \<open>The update of the definition once its next execution \<open>nx\<close> is known: the two
  deactivation tests follow JavaScript's truthiness (a cap of 0 is falsy).\<close>

definition advance :: "recurring \<Rightarrow> date \<Rightarrow> recurring" where
  "advance r nx =
     (let r1 = r\<lparr>r_lastExecution := Some (r_nextExecution r),
                 r_nextExecution := nx,
                 r_executionCount := r_executionCount r + 1\<rparr>;
          r2 = (if (case r_maxExecutions r1 of
                      None \<Rightarrow> False
                    | Some mx \<Rightarrow> mx \<noteq> 0 \<and> mx \<le> r_executionCount r1)
                then r1\<lparr>r_isActive := False\<rparr> else r1)
      in if (case r_endDate r2 of None \<Rightarrow> False | Some e \<Rightarrow> getTime e < getTime nx)
         then r2\<lparr>r_isActive := False\<rparr> else r2)"

definition save_recurring :: "recurring \<Rightarrow> recurring list \<Rightarrow> recurring list" where
  "save_recurring r coll = map (\<lambda>x. if r_id x = r_id r then r else x) coll"

datatype response = Executed "transaction list" | Status500

text \<open>
  The loop over the pending definitions. \<open>accepts\<close> is the validation of the transaction
  schema in \<open>transaction.save()\<close>; for the schema above it is \<open>flat_schema_accepts\<close>. An
  exception (a rejected save, the
  \<open>TypeError\<close> of \<open>calculateNextExecution\<close>, or the save of a definition whose next execution
  is an invalid date) leaves the loop for the handler's \<open>catch\<close>, which answers with status
  500; what was saved before stays saved.
\<close>

fun execute_loop ::
  "(transaction \<Rightarrow> bool) \<Rightarrow> recurring list \<Rightarrow> store \<Rightarrow> transaction list \<Rightarrow> response \<times> store" where
  "execute_loop accepts [] st executed = (Executed executed, st)"
| "execute_loop accepts (r # rs) st executed =
     (let transaction = materialize r in
      if \<not> accepts transaction then (Status500, st)
      else
        (let st1 = st\<lparr>transactions := transactions st @ [transaction]\<rparr>;
             executed1 = executed @ [transaction]
         in case calculateNextExecution (r_nextExecution r) (r_frequency r) (r_dayOfWeek r)
                   (r_dayOfMonth r) (r_dayOfYear r) of
              Inl e \<Rightarrow> (Status500, st1)
            | Inr None \<Rightarrow> (Status500, st1)
            | Inr (Some nx) \<Rightarrow>
                execute_loop accepts rs
                  (st1\<lparr>recurrings := save_recurring (advance r nx) (recurrings st1)\<rparr>)
                  executed1))"

definition execute :: "(transaction \<Rightarrow> bool) \<Rightarrow> objectId \<Rightarrow> date \<Rightarrow> store \<Rightarrow> response \<times> store" where
  "execute accepts userId now st = execute_loop accepts (pendingRecurring userId now st) st []"

section \<open>The budget spend aggregator (updateBudgetSpent, routes/transactions.js)\<close>






section \<open>The goal contribution ledger (models/Goal.js)\<close>

datatype goal_status = GActive | GCompleted | GPaused | GCancelled














section \<open>What the filter of the pass selects, and concrete documents\<close>

text \<open>The condition that the filter of the pass tests once the object literal is
  evaluated: the first \<open>$or\<close>, on the end date, is gone.\<close>

definition code_due :: "objectId \<Rightarrow> date \<Rightarrow> recurring \<Rightarrow> bool" where
  "code_due userId now r =
     (r_userId r = userId \<and> r_isActive r \<and> getTime (r_nextExecution r) \<le> getTime now
      \<and> (case r_maxExecutions r of None \<Rightarrow> True | Some mx \<Rightarrow> r_executionCount r < mx))"


text \<open>Midnight of a day, with the month counted from 0 as in JavaScript.\<close>

definition ymd :: "int \<Rightarrow> int \<Rightarrow> int \<Rightarrow> date" where
  "ymd y m d = \<lparr>getFullYear = y, getMonth = m, getDate = d, getTimeInDay = 0\<rparr>"

text \<open>A monthly rent of 100 of user \<open>u1\<close> in category \<open>c1\<close>, due on the first of every
  month and never executed, with the given next execution and end date.\<close>

definition rent :: "date \<Rightarrow> date option \<Rightarrow> recurring" where
  "rent nextExecution endDate =
     \<lparr>r_id = ''r1'', r_userId = ''u1'', r_type = Expense, r_amount = 100,
      r_category = ''c1'', r_description = ''Rent'', r_frequency = Monthly,
      r_dayOfWeek = None, r_dayOfMonth = Some 1, r_dayOfYear = None,
      r_startDate = ymd 2023 11 1, r_endDate = endDate, r_isActive = True,
      r_nextExecution = nextExecution, r_lastExecution = None, r_executionCount = 0,
      r_maxExecutions = None\<rparr>"

text \<open>An expense of user \<open>u1\<close> in category \<open>c1\<close>, as the richer transaction schema
  stores it.\<close>

definition expense :: "int \<Rightarrow> date \<Rightarrow> bool \<Rightarrow> transaction" where
  "expense amount day deleted =
     \<lparr>t_userId = ''u1'', t_type = Expense, t_amount = amount, t_category = None,
      t_categoryId = Some ''c1'', t_description = ''Groceries'', t_date = day,
      t_isRecurring = False, t_recurringFrequency = None, t_status = Some Completed,
      t_isDeleted = Some deleted\<rparr>"

text \<open>A budget of user \<open>u1\<close> for category \<open>c1\<close> over March 2024, with the given cached
  total.\<close>

definition march_budget :: "int \<Rightarrow> budget" where
  "march_budget spent =
     \<lparr>b_id = ''b1'', b_userId = ''u1'', b_categoryId = ''c1'', b_amount = 500,
      b_startDate = ymd 2024 2 1, b_endDate = ymd 2024 2 31, b_spent = spent,
      b_isActive = True\<rparr>"




section \<open>Properties of the date arithmetic\<close>


lemma div_succ:
  fixes a k :: int
  assumes "0 < k"
  shows "(a + 1) div k = a div k + (if (a + 1) mod k = 0 then 1 else 0)"
proof (cases "a mod k = k - 1")
  case True
  have "a = a div k * k + a mod k" by simp
  with True have "a = a div k * k + (k - 1)" by simp
  then have e: "a + 1 = (a div k + 1) * k" by (simp add: algebra_simps)
  have "(a + 1) div k = a div k + 1"
    by (subst e) (use assms in simp)
  moreover have "(a + 1) mod k = 0"
    by (subst e) simp
  ultimately show ?thesis by simp
next
  case False
  have r: "0 \<le> a mod k" "a mod k < k" using assms by simp_all
  with False have lt: "a mod k + 1 < k" by arith
  have k0: "k \<noteq> 0" using assms by simp
  have e: "a + 1 = (a mod k + 1) + a div k * k" by simp
  have "(a + 1) div k = ((a mod k + 1) + a div k * k) div k"
    using e by simp
  also have "\<dots> = a div k + (a mod k + 1) div k"
    using k0 by (rule div_mult_self1)
  also have "(a mod k + 1) div k = 0"
    using r lt by (simp add: div_pos_pos_trivial)
  finally have d: "(a + 1) div k = a div k" by simp
  have "(a + 1) mod k = ((a mod k + 1) + a div k * k) mod k"
    using e by simp
  also have "\<dots> = (a mod k + 1) mod k"
    by (simp only: mod_mult_self1)
  also have "\<dots> = a mod k + 1"
    using r lt by (simp add: mod_pos_pos_trivial)
  finally have "(a + 1) mod k \<noteq> 0" using r by simp
  with d show ?thesis by simp
qed

lemma div_succ_4: "(y - 1968) div 4 = (y - 1969) div 4 + (if y mod 4 = 0 then 1 else 0)" for y :: int
proof -
  have "(y - 1968) mod 4 = (y + 4 * (- 492)) mod 4" by simp
  also have "\<dots> = y mod 4" by (simp only: mod_mult_self2)
  finally have m: "(y - 1968) mod 4 = y mod 4" .
  have "(y - 1969 + 1) div 4 = (y - 1969) div 4 + (if (y - 1969 + 1) mod 4 = 0 then 1 else 0)"
    by (rule div_succ) simp
  moreover have "y - 1969 + 1 = y - 1968" by simp
  ultimately show ?thesis using m by simp
qed

lemma div_succ_100: "(y - 1900) div 100 = (y - 1901) div 100 + (if y mod 100 = 0 then 1 else 0)" for y :: int
proof -
  have "(y - 1900) mod 100 = (y + 100 * (- 19)) mod 100" by simp
  also have "\<dots> = y mod 100" by (simp only: mod_mult_self2)
  finally have m: "(y - 1900) mod 100 = y mod 100" .
  have "(y - 1901 + 1) div 100 = (y - 1901) div 100 + (if (y - 1901 + 1) mod 100 = 0 then 1 else 0)"
    by (rule div_succ) simp
  moreover have "y - 1901 + 1 = y - 1900" by simp
  ultimately show ?thesis using m by simp
qed

lemma div_succ_400: "(y - 1600) div 400 = (y - 1601) div 400 + (if y mod 400 = 0 then 1 else 0)" for y :: int
proof -
  have "(y - 1600) mod 400 = (y + 400 * (- 4)) mod 400" by simp
  also have "\<dots> = y mod 400" by (simp only: mod_mult_self2)
  finally have m: "(y - 1600) mod 400 = y mod 400" .
  have "(y - 1601 + 1) div 400 = (y - 1601) div 400 + (if (y - 1601 + 1) mod 400 = 0 then 1 else 0)"
    by (rule div_succ) simp
  moreover have "y - 1601 + 1 = y - 1600" by simp
  ultimately show ?thesis using m by simp
qed

lemma mod_100_4: "y mod 4 = 0" if "y mod 100 = 0" for y :: int
proof -
  from that have "100 dvd y" by (simp add: mod_eq_0_iff_dvd)
  moreover have "(4::int) dvd 100" by simp
  ultimately have "4 dvd y" using dvd_trans by blast
  then show ?thesis by (simp add: mod_eq_0_iff_dvd)
qed

lemma mod_400_100: "y mod 100 = 0" if "y mod 400 = 0" for y :: int
proof -
  from that have "400 dvd y" by (simp add: mod_eq_0_iff_dvd)
  moreover have "(100::int) dvd 400" by simp
  ultimately have "100 dvd y" using dvd_trans by blast
  then show ?thesis by (simp add: mod_eq_0_iff_dvd)
qed

lemma leap_arith:
  fixes y A B C :: int
  assumes "p100 \<longrightarrow> p4" "p400 \<longrightarrow> p100"
  shows "365 * (y - 1969) + (A + (if p4 then 1 else 0)) - (B + (if p100 then 1 else 0))
           + (C + (if p400 then 1 else 0))
         = 365 * (y - 1970) + A - B + C + 365 + (if p4 \<and> (\<not> p100 \<or> p400) then 1 else 0)"
  using assms by (cases p4; cases p100; cases p400; simp)

lemma DayFromYear_Suc:
  "DayFromYear (y + 1) = DayFromYear y + 365 + (if InLeapYear y then 1 else 0)"
proof -
  have e: "DayFromYear (y + 1) =
      365 * (y - 1969) + (y - 1968) div 4 - (y - 1900) div 100 + (y - 1600) div 400"
  proof -
    have "y + 1 - 1970 = y - 1969" "y + 1 - 1969 = y - 1968" "y + 1 - 1901 = y - 1900"
      "y + 1 - 1601 = y - 1600" by simp_all
    then show ?thesis by (simp only: DayFromYear_def)
  qed
  have "DayFromYear (y + 1) =
      365 * (y - 1970) + (y - 1969) div 4 - (y - 1901) div 100 + (y - 1601) div 400 + 365
        + (if y mod 4 = 0 \<and> (\<not> y mod 100 = 0 \<or> y mod 400 = 0) then 1 else 0)"
    unfolding e div_succ_4 div_succ_100 div_succ_400
    by (rule leap_arith) (use mod_100_4 [of y] mod_400_100 [of y] in blast)+
  then show ?thesis
    by (simp only: DayFromYear_def InLeapYear_def)
qed

lemma DaysInMonth_bounds: "28 \<le> DaysInMonth y m" "DaysInMonth y m \<le> 31"
  by (simp_all add: DaysInMonth_def)

lemma month_cases:
  fixes m :: int
  assumes "0 \<le> m" "m \<le> 11"
  shows "m = 0 \<or> m = 1 \<or> m = 2 \<or> m = 3 \<or> m = 4 \<or> m = 5 \<or> m = 6 \<or> m = 7 \<or> m = 8
    \<or> m = 9 \<or> m = 10 \<or> m = 11"
  using assms by arith

lemma MonthDay_next:
  assumes "0 \<le> m" "m \<le> 11"
  shows "MonthDay (if m = 11 then y + 1 else y) (if m = 11 then 0 else m + 1)
         = MonthDay y m + DaysInMonth y m"
  using month_cases [OF assms]
  by (elim disjE) (simp_all add: MonthDay_def MonthStart_def DaysInMonth_def DayFromYear_Suc)

lemma MonthDay_prev:
  assumes "0 \<le> m" "m \<le> 11"
  shows "MonthDay (if m = 0 then y - 1 else y) (if m = 0 then 11 else m - 1)
         + DaysInMonth (if m = 0 then y - 1 else y) (if m = 0 then 11 else m - 1)
         = MonthDay y m"
  using month_cases [OF assms] DayFromYear_Suc [of "y - 1"]
  by (elim disjE) (simp_all add: MonthDay_def MonthStart_def DaysInMonth_def)

lemma carry_day_props:
  assumes "0 \<le> m" "m \<le> 11" "carry_day y m d = (y', m', d')"
  shows "0 \<le> m' \<and> m' \<le> 11 \<and> 1 \<le> d' \<and> d' \<le> DaysInMonth y' m'
         \<and> MonthDay y' m' + d' = MonthDay y m + d"
  using assms
proof (induction y m d rule: carry_day.induct)
  case (1 y m d)
  show ?case
  proof (cases "d < 1")
    case True
    let ?y = "if m = 0 then y - 1 else y" and ?m = "if m = 0 then 11 else m - 1"
    have c: "carry_day ?y ?m (d + DaysInMonth ?y ?m) = (y', m', d')"
      using "1.prems"(3) True by (subst (asm) carry_day.simps) (simp add: Let_def)
    have r: "0 \<le> ?m" "?m \<le> 11" using "1.prems"(1,2) by auto
    from "1.IH"(1) [OF True refl refl r c] MonthDay_prev [OF "1.prems"(1,2), of y]
    show ?thesis by simp
  next
    case False
    show ?thesis
    proof (cases "DaysInMonth y m < d")
      case True
      let ?y = "if m = 11 then y + 1 else y" and ?m = "if m = 11 then 0 else m + 1"
      have c: "carry_day ?y ?m (d - DaysInMonth y m) = (y', m', d')"
        using "1.prems"(3) True False by (subst (asm) carry_day.simps) simp
      have r: "0 \<le> ?m" "?m \<le> 11" using "1.prems"(1,2) by auto
      from "1.IH"(2) [OF False True r c] MonthDay_next [OF "1.prems"(1,2), of y]
      show ?thesis by simp
    next
      case T: False
      have "carry_day y m d = (y, m, d)"
        using False T by (subst carry_day.simps) simp
      with "1.prems" False T show ?thesis by simp
    qed
  qed
qed

lemma carry_day_forward:
  assumes "0 \<le> m" "m \<le> 11" "1 \<le> d" "carry_day y m d = (y', m', d')"
  shows "y \<le> y' \<and> d' \<le> d"
  using assms
proof (induction y m d rule: carry_day.induct)
  case (1 y m d)
  show ?case
  proof (cases "DaysInMonth y m < d")
    case True
    let ?y = "if m = 11 then y + 1 else y" and ?m = "if m = 11 then 0 else m + 1"
    have nl: "\<not> d < 1" using "1.prems"(3) by simp
    have c: "carry_day ?y ?m (d - DaysInMonth y m) = (y', m', d')"
      using "1.prems"(4) True nl by (subst (asm) carry_day.simps) simp
    have r: "0 \<le> ?m" "?m \<le> 11" using "1.prems"(1,2) by auto
    have p: "1 \<le> d - DaysInMonth y m" using True by simp
    from "1.IH"(2) [OF nl True r p c] DaysInMonth_bounds(1) [of y m]
    show ?thesis by (simp split: if_splits)
  next
    case False
    have "carry_day y m d = (y, m, d)"
      using False "1.prems"(3) by (subst carry_day.simps) simp
    with "1.prems" show ?thesis by simp
  qed
qed

lemma DayFromYear_mono:
  assumes "y \<le> y'"
  shows "DayFromYear y \<le> DayFromYear y'"
  using assms
proof (induction y' rule: int_ge_induct)
  case base
  show ?case by simp
next
  case (step i)
  then show ?case using DayFromYear_Suc [of i] by (simp split: if_splits)
qed

lemma MonthStart_bounds:
  assumes "0 \<le> m" "m \<le> 11"
  shows "0 \<le> MonthStart y m"
    and "MonthStart y m + DaysInMonth y m \<le> 365 + (if InLeapYear y then 1 else 0)"
  using month_cases [OF assms]
  by (elim disjE; simp add: MonthStart_def DaysInMonth_def)+

lemma Day_bounds:
  assumes "calendar_date dt"
  shows "DayFromYear (getFullYear dt) \<le> Day dt" and "Day dt < DayFromYear (getFullYear dt + 1)"
proof -
  from assms have m: "0 \<le> getMonth dt" "getMonth dt \<le> 11"
    and d: "1 \<le> getDate dt" "getDate dt \<le> DaysInMonth (getFullYear dt) (getMonth dt)"
    by (simp_all add: calendar_date_def)
  show "DayFromYear (getFullYear dt) \<le> Day dt"
    using MonthStart_bounds(1) [OF m, of "getFullYear dt"] d by (simp add: Day_def)
  show "Day dt < DayFromYear (getFullYear dt + 1)"
    using MonthStart_bounds(2) [OF m, of "getFullYear dt"] d
    by (simp add: Day_def DayFromYear_Suc split: if_splits)
qed

lemma Day_MonthDay: "Day dt = MonthDay (getFullYear dt) (getMonth dt) + getDate dt - 1"
  by (simp add: Day_def MonthDay_def)

text \<open>What \<open>MakeDay\<close> gives for a month in range, put into a date.\<close>

lemma with_day_carry:
  assumes "0 \<le> m" "m \<le> 11" "0 \<le> getTimeInDay dt" "getTimeInDay dt < msPerDay"
  shows "calendar_date (with_day dt (carry_day y m d))"
    and "Day (with_day dt (carry_day y m d)) = MonthDay y m + d - 1"
    and "getTimeInDay (with_day dt (carry_day y m d)) = getTimeInDay dt"
    and "1 \<le> d \<Longrightarrow> y \<le> getFullYear (with_day dt (carry_day y m d))"
    and "1 \<le> d \<Longrightarrow> getDate (with_day dt (carry_day y m d)) \<le> d"
proof -
  obtain y' m' d' where c: "carry_day y m d = (y', m', d')" by (cases "carry_day y m d") auto
  note p = carry_day_props [OF assms(1,2) c]
  show "calendar_date (with_day dt (carry_day y m d))"
    using p assms(3,4) by (simp add: c with_day_def calendar_date_def)
  show "Day (with_day dt (carry_day y m d)) = MonthDay y m + d - 1"
    using p by (simp add: c with_day_def Day_MonthDay)
  show "getTimeInDay (with_day dt (carry_day y m d)) = getTimeInDay dt"
    by (simp add: c with_day_def)
  show "1 \<le> d \<Longrightarrow> y \<le> getFullYear (with_day dt (carry_day y m d))"
    using carry_day_forward [OF assms(1,2) _ c] by (simp add: c with_day_def)
  show "1 \<le> d \<Longrightarrow> getDate (with_day dt (carry_day y m d)) \<le> d"
    using carry_day_forward [OF assms(1,2) _ c] by (simp add: c with_day_def)
qed

lemma MakeDay_in_range:
  assumes "0 \<le> m" "m \<le> 11"
  shows "MakeDay y m d = carry_day y m d"
  using assms by (simp add: MakeDay_def div_pos_pos_trivial mod_pos_pos_trivial)

lemma calendar_date_fields:
  assumes "calendar_date dt"
  shows "0 \<le> getMonth dt" "getMonth dt \<le> 11" "1 \<le> getDate dt"
    "getDate dt \<le> DaysInMonth (getFullYear dt) (getMonth dt)"
    "0 \<le> getTimeInDay dt" "getTimeInDay dt < msPerDay"
  using assms by (simp_all add: calendar_date_def)

lemma MakeDate_setDate_props:
  assumes "calendar_date dt"
  shows "calendar_date (MakeDate_setDate k dt)"
    and "Day (MakeDate_setDate k dt) = Day dt + (k - getDate dt)"
    and "getTimeInDay (MakeDate_setDate k dt) = getTimeInDay dt"
    and "1 \<le> k \<Longrightarrow> getFullYear dt \<le> getFullYear (MakeDate_setDate k dt)"
proof -
  note v = calendar_date_fields [OF assms]
  have e: "MakeDate_setDate k dt = with_day dt (carry_day (getFullYear dt) (getMonth dt) k)"
    by (simp add: MakeDate_setDate_def MakeDay_in_range [OF v(1,2)])
  note w = with_day_carry [OF v(1,2,5,6), where y = "getFullYear dt" and d = k]
  show "calendar_date (MakeDate_setDate k dt)" unfolding e by (rule w(1))
  show "Day (MakeDate_setDate k dt) = Day dt + (k - getDate dt)"
    unfolding e w(2) by (simp add: Day_MonthDay)
  show "getTimeInDay (MakeDate_setDate k dt) = getTimeInDay dt" unfolding e by (rule w(3))
  show "1 \<le> k \<Longrightarrow> getFullYear dt \<le> getFullYear (MakeDate_setDate k dt)"
    unfolding e by (rule w(4))
qed

lemma MakeDate_setMonth_props:
  assumes "calendar_date dt" "0 \<le> mo" "mo \<le> 11"
  shows "calendar_date (MakeDate_setMonth mo dt)"
    and "Day (MakeDate_setMonth mo dt) = MonthDay (getFullYear dt) mo + getDate dt - 1"
    and "getTimeInDay (MakeDate_setMonth mo dt) = getTimeInDay dt"
    and "getFullYear dt \<le> getFullYear (MakeDate_setMonth mo dt)"
    and "getDate (MakeDate_setMonth mo dt) \<le> getDate dt"
proof -
  note v = calendar_date_fields [OF assms(1)]
  have e: "MakeDate_setMonth mo dt = with_day dt (carry_day (getFullYear dt) mo (getDate dt))"
    by (simp add: MakeDate_setMonth_def MakeDay_in_range [OF assms(2,3)])
  note w = with_day_carry [OF assms(2,3) v(5,6), where y = "getFullYear dt" and d = "getDate dt"]
  show "calendar_date (MakeDate_setMonth mo dt)" unfolding e by (rule w(1))
  show "Day (MakeDate_setMonth mo dt) = MonthDay (getFullYear dt) mo + getDate dt - 1"
    unfolding e by (rule w(2))
  show "getTimeInDay (MakeDate_setMonth mo dt) = getTimeInDay dt" unfolding e by (rule w(3))
  show "getFullYear dt \<le> getFullYear (MakeDate_setMonth mo dt)"
    unfolding e using v(3) by (rule w(4))
  show "getDate (MakeDate_setMonth mo dt) \<le> getDate dt"
    unfolding e using v(3) by (rule w(5))
qed

text \<open>\<open>MakeDate_setMonth(getMonth() + 1)\<close>: December carries into the next year.\<close>

lemma MakeDate_setMonth_next_props:
  assumes "calendar_date dt"
  shows "calendar_date (MakeDate_setMonth (getMonth dt + 1) dt)"
    and "Day (MakeDate_setMonth (getMonth dt + 1) dt)
         = MonthDay (getFullYear dt) (getMonth dt) + DaysInMonth (getFullYear dt) (getMonth dt)
           + getDate dt - 1"
    and "getTimeInDay (MakeDate_setMonth (getMonth dt + 1) dt) = getTimeInDay dt"
    and "getDate (MakeDate_setMonth (getMonth dt + 1) dt) \<le> getDate dt"
proof -
  note v = calendar_date_fields [OF assms]
  let ?y = "if getMonth dt = 11 then getFullYear dt + 1 else getFullYear dt"
  let ?m = "if getMonth dt = 11 then 0 else getMonth dt + 1"
  have dm: "(getMonth dt + 1) div 12 = (if getMonth dt = 11 then 1 else 0)"
    "(getMonth dt + 1) mod 12 = ?m"
    using month_cases [OF v(1,2)] by (elim disjE; simp)+
  have e: "MakeDate_setMonth (getMonth dt + 1) dt = with_day dt (carry_day ?y ?m (getDate dt))"
    unfolding MakeDate_setMonth_def MakeDay_def dm by simp
  have r: "0 \<le> ?m" "?m \<le> 11" using v(1,2) by auto
  note w = with_day_carry [OF r v(5,6), where y = ?y and d = "getDate dt"]
  show "calendar_date (MakeDate_setMonth (getMonth dt + 1) dt)" unfolding e by (rule w(1))
  show "Day (MakeDate_setMonth (getMonth dt + 1) dt)
         = MonthDay (getFullYear dt) (getMonth dt) + DaysInMonth (getFullYear dt) (getMonth dt)
           + getDate dt - 1"
    unfolding e w(2) MonthDay_next [OF v(1,2)] by simp
  show "getTimeInDay (MakeDate_setMonth (getMonth dt + 1) dt) = getTimeInDay dt"
    unfolding e by (rule w(3))
  show "getDate (MakeDate_setMonth (getMonth dt + 1) dt) \<le> getDate dt"
    unfolding e using v(3) by (rule w(5))
qed

lemma MakeDate_setFullYear_props:
  assumes "calendar_date dt"
  shows "calendar_date (MakeDate_setFullYear y dt)"
    and "getTimeInDay (MakeDate_setFullYear y dt) = getTimeInDay dt"
    and "y \<le> getFullYear (MakeDate_setFullYear y dt)"
    and "Day (MakeDate_setFullYear y dt) = MonthDay y (getMonth dt) + getDate dt - 1"
proof -
  note v = calendar_date_fields [OF assms]
  have e: "MakeDate_setFullYear y dt = with_day dt (carry_day y (getMonth dt) (getDate dt))"
    by (simp add: MakeDate_setFullYear_def MakeDay_in_range [OF v(1,2)])
  note w = with_day_carry [OF v(1,2,5,6), where y = y and d = "getDate dt"]
  show "calendar_date (MakeDate_setFullYear y dt)" unfolding e by (rule w(1))
  show "getTimeInDay (MakeDate_setFullYear y dt) = getTimeInDay dt" unfolding e by (rule w(3))
  show "y \<le> getFullYear (MakeDate_setFullYear y dt)" unfolding e using v(3) by (rule w(4))
  show "Day (MakeDate_setFullYear y dt) = MonthDay y (getMonth dt) + getDate dt - 1"
    unfolding e by (rule w(2))
qed

lemma MakeDate_new_getDate: "1 \<le> getDate (MakeDate_new y m d)"
proof -
  let ?y = "if 0 \<le> y \<and> y \<le> 99 then 1900 + y else y"
  obtain y' m' d' where c: "carry_day (?y + m div 12) (m mod 12) d = (y', m', d')"
    by (cases "carry_day (?y + m div 12) (m mod 12) d") blast
  have "0 \<le> m mod 12" "m mod 12 \<le> 11" by simp_all
  from carry_day_props [OF this c] show ?thesis
    by (simp add: MakeDate_new_def MakeDay_def c with_day_def)
qed

lemma getTime_less:
  assumes "getTimeInDay b = getTimeInDay a" "Day a < Day b"
  shows "getTime a < getTime b"
  using assms by (simp add: getTime_def msPerDay_def)


subsection \<open>The range of the time value\<close>

lemma in_range:
  assumes "calendar_date d" "- 100000000 \<le> Day d" "Day d < 100000000"
  shows "\<bar>getTime d\<bar> \<le> maxTime"
proof -
  note v = calendar_date_fields [OF assms(1)]
  have "Day d * 86400000 \<le> 99999999 * 86400000" using assms(3) by simp
  moreover have "- 100000000 * 86400000 \<le> Day d * 86400000" using assms(2) by simp
  ultimately show ?thesis
    using v(5,6) by (simp add: getTime_def msPerDay_def maxTime_def)
qed

lemma Day_lower:
  assumes "valid_date d"
  shows "- 100000000 \<le> Day d"
proof (rule ccontr)
  assume "\<not> - 100000000 \<le> Day d"
  then have "Day d + 1 \<le> - 100000000" by simp
  then have a: "Day d * 86400000 + 86400000 \<le> - 8640000000000000" by simp
  have b: "getTimeInDay d < 86400000"
    using assms by (simp add: valid_date_def calendar_date_def msPerDay_def)
  have "- 8640000000000000 \<le> getTime d"
    using assms by (simp add: valid_date_def maxTime_def abs_le_iff)
  then have "- 8640000000000000 \<le> Day d * 86400000 + getTimeInDay d"
    by (simp add: getTime_def msPerDay_def)
  with a b show False by linarith
qed

lemma Day_upper:
  assumes "calendar_date d" "getFullYear d \<le> 275000"
  shows "Day d + 1500 < 100000000"
proof -
  have "getFullYear d + 1 \<le> 275001" using assms(2) by simp
  then have "DayFromYear (getFullYear d + 1) \<le> DayFromYear 275001" by (rule DayFromYear_mono)
  moreover have "DayFromYear 275001 = 99722525" by (simp add: DayFromYear_def)
  ultimately show ?thesis using Day_bounds(2) [OF assms(1)] by simp
qed

text \<open>A calendar date that lies after a valid date of a year up to 275000, by at most 1500
  days and at the same time of the day, passes \<open>TimeClip\<close>.\<close>

lemma clip_later:
  assumes "valid_date cur" "getFullYear cur \<le> 275000"
    and "calendar_date n" "getTimeInDay n = getTimeInDay cur"
    and "Day cur < Day n" "Day n \<le> Day cur + 1500"
  shows "TimeClip n = Some n" and "valid_date n" and "getTime cur < getTime n"
proof -
  have c: "calendar_date cur" using assms(1) by (simp add: valid_date_def)
  have "- 100000000 \<le> Day n" using Day_lower [OF assms(1)] assms(5) by simp
  moreover have "Day n < 100000000" using Day_upper [OF c assms(2)] assms(6) by simp
  ultimately have r: "\<bar>getTime n\<bar> \<le> maxTime" by (rule in_range [OF assms(3)])
  then show "TimeClip n = Some n" by (simp add: TimeClip_def)
  show "valid_date n" using assms(3) r by (simp add: valid_date_def)
  show "getTime cur < getTime n" by (rule getTime_less [OF assms(4,5)])
qed

lemma MonthStart_upper:
  assumes "0 \<le> m" "m \<le> 11"
  shows "MonthStart y m \<le> 338"
  using MonthStart_bounds(2) [OF assms, of y] DaysInMonth_bounds(1) [of y m]
  by (simp split: if_splits)

lemma getDay_range: "0 \<le> getDay dt" "getDay dt \<le> 6"
  by (simp_all add: getDay_def)

lemma weekly_step_range:
  assumes "0 \<le> w" "w \<le> 6"
  shows "1 \<le> weekly_step w cur" "weekly_step w cur \<le> 7"
    and "getDay cur = w \<Longrightarrow> weekly_step w cur = 7"
proof -
  define x where "x = js_rem (w + 7 - getDay cur) 7"
  have a: "0 < w + 7 - getDay cur" using assms getDay_range [of cur] by simp
  then have e: "x = (w + 7 - getDay cur) mod 7"
    by (simp add: x_def js_rem_def)
  have x: "0 \<le> x" "x < 7" by (simp_all add: e)
  have s: "weekly_step w cur = (if x = 0 then 7 else x)"
    by (simp add: weekly_step_def x_def Let_def)
  show "1 \<le> weekly_step w cur" unfolding s using x by simp
  show "weekly_step w cur \<le> 7" unfolding s using x by simp
  show "getDay cur = w \<Longrightarrow> weekly_step w cur = 7"
    by (simp add: weekly_step_def js_rem_def)
qed

lemma next_daily:
  assumes "valid_date cur" "getFullYear cur \<le> 275000"
  shows "\<exists>n. setDate (getDate cur + 1) cur = Some n \<and> valid_date n \<and> getTime cur < getTime n"
proof -
  have c: "calendar_date cur" using assms(1) by (simp add: valid_date_def)
  let ?n = "MakeDate_setDate (getDate cur + 1) cur"
  note p = MakeDate_setDate_props [OF c, of "getDate cur + 1"]
  have d: "Day cur < Day ?n" "Day ?n \<le> Day cur + 1500" by (simp_all add: p(2))
  note k = clip_later [OF assms p(1,3) d]
  show ?thesis using k by (simp add: setDate_def)
qed

lemma next_weekly:
  assumes "valid_date cur" "getFullYear cur \<le> 275000" "0 \<le> w" "w \<le> 6"
  shows "\<exists>n. setDate (getDate cur + weekly_step w cur) cur = Some n \<and> valid_date n
           \<and> getTime cur < getTime n
           \<and> (getDay cur = w \<longrightarrow> getTime n = getTime cur + 7 * msPerDay)"
proof -
  have c: "calendar_date cur" using assms(1) by (simp add: valid_date_def)
  let ?n = "MakeDate_setDate (getDate cur + weekly_step w cur) cur"
  note p = MakeDate_setDate_props [OF c, of "getDate cur + weekly_step w cur"]
  note s = weekly_step_range [OF assms(3,4), of cur]
  have d: "Day cur < Day ?n" "Day ?n \<le> Day cur + 1500" using s(1,2) by (simp_all add: p(2))
  note k = clip_later [OF assms(1,2) p(1,3) d]
  have "getDay cur = w \<longrightarrow> getTime ?n = getTime cur + 7 * msPerDay"
  proof
    assume "getDay cur = w"
    then have "weekly_step w cur = 7" by (rule s(3))
    with p(2) have "Day ?n = Day cur + 7" by linarith
    then show "getTime ?n = getTime cur + 7 * msPerDay"
      by (simp add: getTime_def p(3) algebra_simps)
  qed
  with k show ?thesis by (simp add: setDate_def)
qed

text \<open>\<open>new Date(year, month + 1, 0)\<close> is the last day of the month of a date.\<close>

lemma MakeDate_new_last:
  assumes "calendar_date dt"
  shows "calendar_date (MakeDate_new (getFullYear dt) (getMonth dt + 1) 0)"
    and "\<not> (0 \<le> getFullYear dt \<and> getFullYear dt \<le> 99) \<Longrightarrow>
         Day dt \<le> Day (MakeDate_new (getFullYear dt) (getMonth dt + 1) 0)
         \<and> Day (MakeDate_new (getFullYear dt) (getMonth dt + 1) 0) \<le> Day dt + 30"
    and "0 \<le> getFullYear dt \<and> getFullYear dt \<le> 99 \<Longrightarrow>
         - 25567 \<le> Day (MakeDate_new (getFullYear dt) (getMonth dt + 1) 0)
         \<and> Day (MakeDate_new (getFullYear dt) (getMonth dt + 1) 0) \<le> 10957"
proof -
  note v = calendar_date_fields [OF assms]
  let ?Y = "if 0 \<le> getFullYear dt \<and> getFullYear dt \<le> 99 then 1900 + getFullYear dt
            else getFullYear dt"
  let ?y = "if getMonth dt = 11 then ?Y + 1 else ?Y"
  let ?m = "if getMonth dt = 11 then 0 else getMonth dt + 1"
  let ?b = "\<lparr>getFullYear = 0, getMonth = 0, getDate = 1, getTimeInDay = 0\<rparr>"
  have dm: "(getMonth dt + 1) div 12 = (if getMonth dt = 11 then 1 else 0)"
    "(getMonth dt + 1) mod 12 = ?m"
    using month_cases [OF v(1,2)] by (elim disjE; simp)+
  have e: "MakeDate_new (getFullYear dt) (getMonth dt + 1) 0 = with_day ?b (carry_day ?y ?m 0)"
    unfolding MakeDate_new_def MakeDay_def dm by simp
  have r: "0 \<le> ?m" "?m \<le> 11" using v(1,2) by auto
  have t: "0 \<le> getTimeInDay ?b" "getTimeInDay ?b < msPerDay" by (simp_all add: msPerDay_def)
  note w = with_day_carry [OF r t, where y = ?y and d = 0]
  show "calendar_date (MakeDate_new (getFullYear dt) (getMonth dt + 1) 0)"
    unfolding e by (rule w(1))
  have D: "Day (MakeDate_new (getFullYear dt) (getMonth dt + 1) 0)
           = MonthDay ?Y (getMonth dt) + DaysInMonth ?Y (getMonth dt) - 1"
    unfolding e w(2) MonthDay_next [OF v(1,2)] by simp
  show "\<not> (0 \<le> getFullYear dt \<and> getFullYear dt \<le> 99) \<Longrightarrow>
         Day dt \<le> Day (MakeDate_new (getFullYear dt) (getMonth dt + 1) 0)
         \<and> Day (MakeDate_new (getFullYear dt) (getMonth dt + 1) 0) \<le> Day dt + 30"
  proof -
    assume n: "\<not> (0 \<le> getFullYear dt \<and> getFullYear dt \<le> 99)"
    then have Y: "?Y = getFullYear dt" by simp
    show ?thesis
      unfolding D Y using v(3,4) DaysInMonth_bounds(2) [of "getFullYear dt" "getMonth dt"]
      by (simp add: Day_MonthDay)
  qed
  show "0 \<le> getFullYear dt \<and> getFullYear dt \<le> 99 \<Longrightarrow>
         - 25567 \<le> Day (MakeDate_new (getFullYear dt) (getMonth dt + 1) 0)
         \<and> Day (MakeDate_new (getFullYear dt) (getMonth dt + 1) 0) \<le> 10957"
  proof -
    assume q: "0 \<le> getFullYear dt \<and> getFullYear dt \<le> 99"
    then have Y: "?Y = 1900 + getFullYear dt" by simp
    have "DayFromYear 1900 \<le> DayFromYear (1900 + getFullYear dt)"
      by (rule DayFromYear_mono) (use q in simp)
    moreover have "DayFromYear (1900 + getFullYear dt + 1) \<le> DayFromYear 2000"
      by (rule DayFromYear_mono) (use q in simp)
    moreover have "DayFromYear 1900 = - 25567" "DayFromYear 2000 = 10957"
      by (simp_all add: DayFromYear_def)
    moreover note MonthStart_bounds [OF v(1,2), of "1900 + getFullYear dt"]
      DayFromYear_Suc [of "1900 + getFullYear dt"]
      DaysInMonth_bounds(1) [of "1900 + getFullYear dt" "getMonth dt"]
    ultimately show ?thesis
      unfolding D Y by (simp add: MonthDay_def split: if_splits)
  qed
qed

lemma next_monthly:
  assumes "valid_date cur" "getFullYear cur \<le> 275000" "1 \<le> k" "k \<le> 31"
  shows "\<exists>next1 lastDate n.
           setMonth (getMonth cur + 1) cur = Some next1
           \<and> newDate (getFullYear next1) (getMonth next1 + 1) 0 = Some lastDate
           \<and> setDate (min k (getDate lastDate)) next1 = Some n
           \<and> valid_date n \<and> getTime cur < getTime n"
proof -
  have c: "calendar_date cur" using assms(1) by (simp add: valid_date_def)
  note v = calendar_date_fields [OF c]
  let ?n1 = "MakeDate_setMonth (getMonth cur + 1) cur"
  let ?ld = "MakeDate_new (getFullYear ?n1) (getMonth ?n1 + 1) 0"
  let ?n = "MakeDate_setDate (min k (getDate ?ld)) ?n1"
  note m = MakeDate_setMonth_next_props [OF c]
  have D1: "Day ?n1 = Day cur + DaysInMonth (getFullYear cur) (getMonth cur)"
    unfolding m(2) by (simp add: Day_MonthDay)
  have d1: "Day cur < Day ?n1" "Day ?n1 \<le> Day cur + 31"
    using DaysInMonth_bounds [of "getFullYear cur" "getMonth cur"] unfolding D1 by simp_all
  then have d1': "Day ?n1 \<le> Day cur + 1500" by simp
  note k1 = clip_later [OF assms(1,2) m(1,3) d1(1) d1']
  have s1: "setMonth (getMonth cur + 1) cur = Some ?n1" using k1(1) by (simp add: setMonth_def)
  note l = MakeDate_new_last [OF m(1)]
  have lo: "- 100000000 \<le> Day ?ld"
    using l(2,3) Day_lower [OF k1(2)] by (cases "0 \<le> getFullYear ?n1 \<and> getFullYear ?n1 \<le> 99") simp_all
  have hi: "Day ?ld < 100000000"
    using l(2,3) d1(2) Day_upper [OF c assms(2)]
    by (cases "0 \<le> getFullYear ?n1 \<and> getFullYear ?n1 \<le> 99") simp_all
  have s2: "newDate (getFullYear ?n1) (getMonth ?n1 + 1) 0 = Some ?ld"
    using in_range [OF l(1) lo hi] by (simp add: newDate_def TimeClip_def)
  note p = MakeDate_setDate_props [OF m(1), of "min k (getDate ?ld)"]
  have t: "getTimeInDay ?n = getTimeInDay cur" by (simp add: p(3) m(3))
  have g: "1 \<le> getDate ?ld" by (rule MakeDate_new_getDate)
  have "Day cur = MonthDay (getFullYear cur) (getMonth cur) + getDate cur - 1"
    by (rule Day_MonthDay)
  then have "Day cur < Day ?n1 - getDate ?n1 + 1"
    using m(4) v(4) DaysInMonth_bounds(1) [of "getFullYear cur" "getMonth cur"]
    unfolding m(2) by linarith
  also have "\<dots> \<le> Day ?n" using assms(3) g by (simp add: p(2))
  finally have d3: "Day cur < Day ?n" .
  have "Day ?n \<le> Day ?n1 + 31"
    using assms(4) calendar_date_fields(3) [OF m(1)] by (simp add: p(2))
  then have d3': "Day ?n \<le> Day cur + 1500" using d1(2) by simp
  note k3 = clip_later [OF assms(1,2) p(1) t d3 d3']
  have s3: "setDate (min k (getDate ?ld)) ?n1 = Some ?n" using k3(1) by (simp add: setDate_def)
  from s1 s2 s3 k3(2,3) show ?thesis by blast
qed

lemma next_yearly:
  assumes "valid_date cur" "getFullYear cur \<le> 275000" "1 \<le> pm" "pm \<le> 12" "1 \<le> pd" "pd \<le> 31"
  shows "\<exists>next1 next2 n.
           setFullYear (getFullYear cur + 1) cur = Some next1
           \<and> setMonth (pm - 1) next1 = Some next2
           \<and> setDate pd next2 = Some n
           \<and> valid_date n \<and> getTime cur < getTime n"
proof -
  have cc: "calendar_date cur" using assms(1) by (simp add: valid_date_def)
  note v = calendar_date_fields [OF cc]
  let ?n1 = "MakeDate_setFullYear (getFullYear cur + 1) cur"
  let ?n2 = "MakeDate_setMonth (pm - 1) ?n1"
  let ?n3 = "MakeDate_setDate pd ?n2"
  note a = MakeDate_setFullYear_props [OF cc, of "getFullYear cur + 1"]
  have r: "0 \<le> pm - 1" "pm - 1 \<le> 11" using assms(3,4) by simp_all
  note b = MakeDate_setMonth_props [OF a(1) r]
  note c = MakeDate_setDate_props [OF b(1), of pd]
  have Y: "DayFromYear (getFullYear cur + 1) \<le> Day cur + 366" "Day cur < DayFromYear (getFullYear cur + 1)"
    using Day_bounds [OF cc] by (simp_all add: DayFromYear_Suc split: if_splits)
  \<comment> \<open>after \<open>setFullYear\<close>\<close>
  have "DayFromYear (getFullYear cur + 1) \<le> DayFromYear (getFullYear ?n1)"
    using a(3) by (rule DayFromYear_mono)
  with Y(2) Day_bounds(1) [OF a(1)] have l1: "Day cur < Day ?n1" by linarith
  have u1: "Day ?n1 \<le> Day cur + 734"
    using Y(1) MonthStart_upper [OF v(1,2), of "getFullYear cur + 1"] v(4)
      DaysInMonth_bounds(2) [of "getFullYear cur" "getMonth cur"]
    unfolding a(4) MonthDay_def by linarith
  then have u1': "Day ?n1 \<le> Day cur + 1500" by simp
  note k1 = clip_later [OF assms(1,2) a(1,2) l1 u1']
  have s1: "setFullYear (getFullYear cur + 1) cur = Some ?n1"
    using k1(1) by (simp add: setFullYear_def)
  \<comment> \<open>after \<open>setMonth\<close>\<close>
  have t2: "getTimeInDay ?n2 = getTimeInDay cur" by (simp add: b(3) a(2))
  have "getFullYear cur + 1 \<le> getFullYear ?n2" using a(3) b(4) by linarith
  then have "DayFromYear (getFullYear cur + 1) \<le> DayFromYear (getFullYear ?n2)"
    by (rule DayFromYear_mono)
  with Y(2) Day_bounds(1) [OF b(1)] have l2: "Day cur < Day ?n2" by linarith
  note v1 = calendar_date_fields [OF a(1)]
  have u2: "Day ?n2 \<le> Day ?n1 + 368"
    using MonthStart_upper [OF r, of "getFullYear ?n1"] v1(3,4)
      DaysInMonth_bounds(2) [of "getFullYear ?n1" "getMonth ?n1"] Day_bounds(1) [OF a(1)]
    unfolding b(2) MonthDay_def by linarith
  then have u2': "Day ?n2 \<le> Day cur + 1500" using u1 by simp
  note k2 = clip_later [OF assms(1,2) b(1) t2 l2 u2']
  have s2: "setMonth (pm - 1) ?n1 = Some ?n2" using k2(1) by (simp add: setMonth_def)
  \<comment> \<open>after \<open>setDate\<close>\<close>
  have t3: "getTimeInDay ?n3 = getTimeInDay cur" by (simp add: c(3) b(3) a(2))
  have "getFullYear cur + 1 \<le> getFullYear ?n3"
    using a(3) b(4) c(4) [OF assms(5)] by linarith
  then have "DayFromYear (getFullYear cur + 1) \<le> DayFromYear (getFullYear ?n3)"
    by (rule DayFromYear_mono)
  with Y(2) Day_bounds(1) [OF c(1)] have l3: "Day cur < Day ?n3" by linarith
  have "Day ?n3 \<le> Day ?n2 + 31"
    using assms(6) calendar_date_fields(3) [OF b(1)] by (simp add: c(2))
  then have u3': "Day ?n3 \<le> Day cur + 1500" using u1 u2 by simp
  note k3 = clip_later [OF assms(1,2) c(1) t3 l3 u3']
  have s3: "setDate pd ?n2 = Some ?n3" using k3(1) by (simp add: setDate_def)
  from s1 s2 s3 k3(2,3) show ?thesis by blast
qed
lemma MonthStart_next:
  assumes "0 \<le> m" "m \<le> 10"
  shows "MonthStart y (m + 1) = MonthStart y m + DaysInMonth y m"
proof -
  from assms have "m = 0 \<or> m = 1 \<or> m = 2 \<or> m = 3 \<or> m = 4 \<or> m = 5 \<or> m = 6 \<or> m = 7 \<or> m = 8
    \<or> m = 9 \<or> m = 10" by arith
  then show ?thesis
    by (elim disjE) (simp_all add: MonthStart_def DaysInMonth_def)
qed

lemma MonthStart_mono:
  assumes "0 \<le> m" "m < m'" "m' \<le> 11"
  shows "MonthStart y m + DaysInMonth y m \<le> MonthStart y m'"
proof -
  have "m + 1 \<le> m'" using assms(2) by simp
  then show ?thesis using assms(1,3)
  proof (induction m' rule: int_ge_induct)
    case base
    then show ?case using MonthStart_next [of m y] by simp
  next
    case (step i)
    then have "MonthStart y m + DaysInMonth y m \<le> MonthStart y i" by simp
    moreover have "MonthStart y (i + 1) = MonthStart y i + DaysInMonth y i"
      using step by (intro MonthStart_next) simp_all
    moreover have "0 \<le> DaysInMonth y i" using DaysInMonth_bounds(1) [of y i] by simp
    ultimately show ?case by simp
  qed
qed

lemma Day_less_month:
  assumes "calendar_date a" "calendar_date b" "getFullYear a = getFullYear b" "getMonth a < getMonth b"
  shows "Day a < Day b"
proof -
  note va = calendar_date_fields [OF assms(1)] and vb = calendar_date_fields [OF assms(2)]
  from MonthStart_mono [OF va(1) assms(4) vb(2), of "getFullYear a"] va(4) vb(3) assms(3)
  show ?thesis by (simp add: Day_def)
qed

lemma Day_less_year:
  assumes "calendar_date a" "calendar_date b" "getFullYear a < getFullYear b"
  shows "Day a < Day b"
proof -
  have "getFullYear a + 1 \<le> getFullYear b" using assms(3) by simp
  from DayFromYear_mono [OF this] Day_bounds(2) [OF assms(1)] Day_bounds(1) [OF assms(2)]
  show ?thesis by linarith
qed

text \<open>The day number determines the year, the month and the day of a valid date: the date
  that \<open>carry_day\<close> returns is the calendar date of the day number of \<open>MakeDay\<close>.\<close>

lemma Day_inj:
  assumes "calendar_date a" "calendar_date b" "Day a = Day b"
  shows "getFullYear a = getFullYear b \<and> getMonth a = getMonth b \<and> getDate a = getDate b"
proof -
  have y: "getFullYear a = getFullYear b"
    using Day_less_year [OF assms(1,2)] Day_less_year [OF assms(2,1)] assms(3) by force
  have m: "getMonth a = getMonth b"
    using Day_less_month [OF assms(1,2) y] Day_less_month [OF assms(2,1) y [symmetric]] assms(3)
    by force
  from assms(3) y m have "getDate a = getDate b" by (simp add: Day_def)
  with y m show ?thesis by simp
qed

text \<open>A weekly schedule lands on the anchor weekday.\<close>

lemma weekly_lands_on_anchor:
  assumes "calendar_date cur" "0 \<le> w" "w \<le> 6"
  shows "getDay (MakeDate_setDate (getDate cur + weekly_step w cur) cur) = w"
proof -
  define g where "g = getDay cur"
  define k where "k = (w + 7 - g) mod 7"
  have g: "0 \<le> g" "g \<le> 6" using getDay_range [of cur] by (simp_all add: g_def)
  have s: "weekly_step w cur = (if k = 0 then 7 else k)"
    using g assms(2) by (simp add: weekly_step_def js_rem_def g_def k_def Let_def)
  have "(g + weekly_step w cur) mod 7 = (g + k) mod 7"
    unfolding s by simp
  also have "\<dots> = (g + (w + 7 - g)) mod 7"
    unfolding k_def by (rule mod_add_right_eq)
  also have "g + (w + 7 - g) = w + 7" by simp
  also have "(w + 7) mod 7 = w" using assms(2,3) by simp
  finally have e: "(g + weekly_step w cur) mod 7 = w" .
  have "(Day cur + 4 + weekly_step w cur) mod 7 = ((Day cur + 4) mod 7 + weekly_step w cur) mod 7"
    by (rule mod_add_left_eq [symmetric])
  also have "\<dots> = w" using e by (simp add: g_def getDay_def)
  finally show ?thesis
    by (simp add: getDay_def MakeDate_setDate_props(2) [OF assms(1)] algebra_simps)
qed


text \<open>The day after the last day a date can hold is an invalid date.\<close>

lemma next_execution_past_last_day:
  "valid_date \<lparr>getFullYear = 275760, getMonth = 8, getDate = 13, getTimeInDay = 0\<rparr>
   \<and> calculateNextExecution
         \<lparr>getFullYear = 275760, getMonth = 8, getDate = 13, getTimeInDay = 0\<rparr>
         Daily None None None
       = Inr None"
  by code_simp

text \<open>
  Claim C4. For each of the four frequencies, every valid current date of a year up to 275000
  and every valid anchor, \<open>calculateNextExecution\<close> returns a valid date whose time value is
  strictly greater than that of the current date. A weekly schedule whose current date falls
  on the anchor weekday advances by exactly seven days. A valid date has its time value within
  8.64e15 ms of the epoch; the bound on the year keeps the result within that range (the last
  day a date can hold is in the year 275760, and from there the code returns an invalid
  date).
\<close>

theorem calculateNextExecution_strictly_later:
  assumes "valid_date currentDate" "getFullYear currentDate \<le> 275000"
    and "valid_anchor freq dayOfWeek dayOfMonth dayOfYear"
  shows "\<exists>next. calculateNextExecution currentDate freq dayOfWeek dayOfMonth dayOfYear
                  = Inr (Some next)
           \<and> valid_date next \<and> getTime currentDate < getTime next
           \<and> (freq = Weekly \<and> dayOfWeek = Some (getDay currentDate)
                \<longrightarrow> getTime next = getTime currentDate + 7 * msPerDay)"
proof (cases freq)
  case Daily
  then show ?thesis
    using next_daily [OF assms(1,2)] by (auto simp: calculateNextExecution_def)
next
  case Weekly
  with assms(3) obtain w where w: "dayOfWeek = Some w" "0 \<le> w" "w \<le> 6"
    by (auto simp: valid_anchor_def split: option.splits)
  have e: "calculateNextExecution currentDate freq dayOfWeek dayOfMonth dayOfYear
           = Inr (setDate (getDate currentDate + weekly_step w currentDate) currentDate)"
    by (simp add: calculateNextExecution_def Weekly w(1) weekly_step_def Let_def)
  from next_weekly [OF assms(1,2) w(2,3)] obtain n where
    n: "setDate (getDate currentDate + weekly_step w currentDate) currentDate = Some n"
      "valid_date n" "getTime currentDate < getTime n"
      "getDay currentDate = w \<longrightarrow> getTime n = getTime currentDate + 7 * msPerDay"
    by blast
  have "dayOfWeek = Some (getDay currentDate) \<longrightarrow> getTime n = getTime currentDate + 7 * msPerDay"
    using n(4) w(1) by auto
  with n(1,2,3) show ?thesis
    unfolding e by simp
next
  case Monthly
  with assms(3) obtain k where k: "dayOfMonth = Some k" "1 \<le> k" "k \<le> 31"
    by (auto simp: valid_anchor_def split: option.splits)
  from next_monthly [OF assms(1,2) k(2,3)] obtain next1 lastDate n where
    n: "setMonth (getMonth currentDate + 1) currentDate = Some next1"
      "newDate (getFullYear next1) (getMonth next1 + 1) 0 = Some lastDate"
      "setDate (min k (getDate lastDate)) next1 = Some n"
      "valid_date n" "getTime currentDate < getTime n"
    by blast
  show ?thesis
    using n by (simp add: calculateNextExecution_def Monthly k(1) Let_def)
next
  case Yearly
  with assms(3) obtain s p q pm pd where s: "dayOfYear = Some s" "split_on CHR ''-'' s = [p, q]"
    "parseInt p = Some pm" "parseInt q = Some pd" "1 \<le> pm" "pm \<le> 12" "1 \<le> pd" "pd \<le> 31"
    by (auto simp: valid_anchor_def split: option.splits list.splits)
  from next_yearly [OF assms(1,2) s(5,6,7,8)] obtain next1 next2 n where
    n: "setFullYear (getFullYear currentDate + 1) currentDate = Some next1"
      "setMonth (pm - 1) next1 = Some next2"
      "setDate pd next2 = Some n"
      "valid_date n" "getTime currentDate < getTime n"
    by blast
  show ?thesis
    using n by (simp add: calculateNextExecution_def Yearly s(1,2,3,4) Let_def)
qed

theorem calculateNextExecution_strictly_later_witness:
  "valid_date \<lparr>getFullYear = 2024, getMonth = 0, getDate = 31, getTimeInDay = 0\<rparr>
   \<and> getFullYear \<lparr>getFullYear = 2024, getMonth = 0, getDate = 31, getTimeInDay = 0\<rparr> \<le> 275000
   \<and> valid_anchor Weekly (Some 3) None None
   \<and> calculateNextExecution
         \<lparr>getFullYear = 2024, getMonth = 0, getDate = 31, getTimeInDay = 0\<rparr>
         Weekly (Some 3) None None
       = Inr (Some \<lparr>getFullYear = 2024, getMonth = 1, getDate = 7, getTimeInDay = 0\<rparr>)
   \<and> getTime \<lparr>getFullYear = 2024, getMonth = 0, getDate = 31, getTimeInDay = 0\<rparr>
       < getTime \<lparr>getFullYear = 2024, getMonth = 1, getDate = 7, getTimeInDay = 0\<rparr>
   \<and> getTime \<lparr>getFullYear = 2024, getMonth = 1, getDate = 7, getTimeInDay = 0\<rparr>
       = getTime \<lparr>getFullYear = 2024, getMonth = 0, getDate = 31, getTimeInDay = 0\<rparr>
         + 7 * msPerDay"
proof -
  let ?d0 = "\<lparr>getFullYear = 2024, getMonth = 0, getDate = 31, getTimeInDay = 0\<rparr>"
  let ?d7 = "\<lparr>getFullYear = 2024, getMonth = 1, getDate = 7, getTimeInDay = 0\<rparr>"
  have v: "valid_date ?d0" by code_simp
  have y: "getFullYear ?d0 \<le> 275000" by simp
  have a: "valid_anchor Weekly (Some 3) None None" by code_simp
  have c: "calculateNextExecution ?d0 Weekly (Some 3) None None = Inr (Some ?d7)" by code_simp
  have g: "Some (3::int) = Some (getDay ?d0)" by code_simp
  from calculateNextExecution_strictly_later [OF v y a] obtain nx
    where n: "calculateNextExecution ?d0 Weekly (Some 3) None None = Inr (Some nx)"
      "getTime ?d0 < getTime nx"
      "Weekly = Weekly \<and> Some 3 = Some (getDay ?d0) \<longrightarrow> getTime nx = getTime ?d0 + 7 * msPerDay"
    by blast
  from n(1) c have "nx = ?d7" by simp
  with n(2,3) g v y a c show ?thesis by blast
qed
text \<open>
  Claim C1. The claim says that a monthly schedule advances exactly one calendar month and
  clamps the day to the length of that month, so that 31 January 2024 with anchor day 31 is
  followed by 29 February 2024. The code calls \<open>setMonth\<close> first: 31 February overflows to
  2 March, the day is then clamped against March, and the result is 31 March 2024. February
  is skipped.
\<close>

theorem monthly_from_jan_31_skips_february:
  "calculateNextExecution
     \<lparr>getFullYear = 2024, getMonth = 0, getDate = 31, getTimeInDay = 0\<rparr>
     Monthly None (Some 31) None
   = Inr (Some \<lparr>getFullYear = 2024, getMonth = 2, getDate = 31, getTimeInDay = 0\<rparr>)"
  by code_simp

text \<open>
  Claim C6. For all dates, \<open>monthsDiff\<close> is the difference in months of the year and month
  fields, plus one when the target's day of the month is greater than today's, and at least
  one; from a date to itself it is one.
\<close>

theorem monthsDiff_formula:
  "monthsDiff now target =
     max 1 ((getFullYear target - getFullYear now) * 12 + (getMonth target - getMonth now)
            + (if getDate target > getDate now then 1 else 0))
   \<and> 1 \<le> monthsDiff now target
   \<and> monthsDiff now now = 1"
  by (simp add: monthsDiff_def Let_def max_def)

section \<open>Queries\<close>

lemma object_literal_spent_match: "object_literal (spent_match b) = spent_match b"
  by (simp add: object_literal_def spent_match_def)

lemma txtype_str_eq: "(txtype_str t = ''expense'') = (t = Expense)"
  by (cases t) (simp_all add: txtype_str_def)

lemma txstatus_str_eq: "(txstatus_str s = ''completed'') = (s = Completed)"
  by (cases s) (simp_all add: txstatus_str_def)

lemma matches_spent_match:
  "matches (transaction_field t) (spent_match b) = counts_for b t"
proof -
  have c: "(transaction_field t ''categoryId'' = Oid (b_categoryId b))
           = (t_categoryId t = Some (b_categoryId b))"
    by (cases "t_categoryId t") (simp_all add: transaction_field_def opt_def)
  have s: "(transaction_field t ''status'' = Str ''completed'') = (t_status t = Some Completed)"
    by (cases "t_status t") (simp_all add: transaction_field_def opt_def txstatus_str_eq)
  have d: "(transaction_field t ''isDeleted'' \<noteq> Bool True) = (t_isDeleted t \<noteq> Some True)"
    by (cases "t_isDeleted t") (simp_all add: transaction_field_def opt_def)
  have u: "(transaction_field t ''userId'' = Oid (b_userId b)) = (t_userId t = b_userId b)"
    by (simp add: transaction_field_def)
  have ty: "(transaction_field t ''type'' = Str ''expense'') = (t_type t = Expense)"
    by (simp add: transaction_field_def txtype_str_eq)
  have dt: "transaction_field t ''date'' = DateVal (t_date t)"
    by (simp add: transaction_field_def)
  show ?thesis
    unfolding matches_def object_literal_spent_match
    by (simp add: spent_match_def counts_for_def c s d u ty dt)
qed

lemma find_spent_match:
  "find_docs transaction_field (spent_match b) txs = filter (counts_for b) txs"
  by (simp add: find_docs_def matches_spent_match)

text \<open>
  Claim C5. For every budget and every collection of transactions, \<open>calculateSpent\<close> sets
  \<open>spent\<close> to the sum of \<open>amount\<close> over the transactions whose owner and category are the
  budget's, whose type is expense and status completed, whose soft-delete flag is not set,
  and whose date lies between the budget's start and end dates, both included; nothing else
  of the budget changes. With no such transaction the sum is 0.
\<close>

theorem calculateSpent_sums:
  "calculateSpent b txs = b\<lparr>b_spent := sum_list (map t_amount (filter (counts_for b) txs))\<rparr>"
  by (simp add: calculateSpent_def find_spent_match group_total_def Let_def)

text \<open>The scenario of the specification: expenses of 100, 50 and 25 in March 2024 and a
  soft-deleted one of 999 give 175; no transaction gives 0.\<close>

theorem calculateSpent_sums_witness:
  "b_spent (calculateSpent (march_budget 0)
      [expense 100 (ymd 2024 2 1) False, expense 50 (ymd 2024 2 14) False,
       expense 999 (ymd 2024 2 20) True, expense 25 (ymd 2024 2 31) False]) = 175
   \<and> b_spent (calculateSpent (march_budget 60) []) = 0"
proof -
  let ?txs = "[expense 100 (ymd 2024 2 1) False, expense 50 (ymd 2024 2 14) False,
       expense 999 (ymd 2024 2 20) True, expense 25 (ymd 2024 2 31) False]"
  have "sum_list (map t_amount (filter (counts_for (march_budget 0)) ?txs)) = 175"
    by code_simp
  then show ?thesis
    using calculateSpent_sums [of "march_budget 0" ?txs] calculateSpent_sums [of "march_budget 60" "[]"]
    by simp
qed

lemma object_literal_pending_query:
  "object_literal (pending_query u now) =
     [(''userId'', Is (Oid u)),
      (''isActive'', Is (Bool True)),
      (''nextExecution'', Ops [Lte (DateVal now)]),
      (''$or'', Or [[(''maxExecutions'', Ops [Exists False])],
                    [(''$expr'', ExprLt ''executionCount'' ''maxExecutions'')]])]"
  by (simp add: object_literal_def pending_query_def)

lemma matches_pending_query:
  "matches (recurring_field r) (pending_query u now) = code_due u now r"
proof -
  have a: "(recurring_field r ''userId'' = Oid u) = (r_userId r = u)"
    "(recurring_field r ''isActive'' = Bool True) = r_isActive r"
    "recurring_field r ''nextExecution'' = DateVal (r_nextExecution r)"
    "recurring_field r ''executionCount'' = Num (r_executionCount r)"
    "recurring_field r ''maxExecutions'' = opt Num (r_maxExecutions r)"
    by (simp_all add: recurring_field_def)
  show ?thesis
    unfolding matches_def object_literal_pending_query
    by (cases "r_maxExecutions r") (auto simp add: a code_due_def opt_def expr_lt_def)
qed

lemma pendingRecurring_eq:
  "pendingRecurring u now st = filter (code_due u now) (recurrings st)"
  by (simp add: pendingRecurring_def find_docs_def matches_pending_query)

text \<open>
  Claim C2. The claim says that the pass selects no definition whose end date is before the
  evaluation time. The filter of the source defines the property \<open>$or\<close> twice, so the
  alternative on the end date is replaced by the one on the cap of executions: on
  1 February 2024 the pass selects the rent that was due on 1 January 2024 and whose end
  date was 15 January 2024, which the filter of the specification excludes.
\<close>

theorem pending_selects_ended_definition:
  "pendingRecurring ''u1'' (ymd 2024 1 1)
     \<lparr>recurrings = [rent (ymd 2024 0 1) (Some (ymd 2024 0 15))], transactions = [],
      budgets = []\<rparr>
     = [rent (ymd 2024 0 1) (Some (ymd 2024 0 15))]
   \<and> getTime (ymd 2024 0 15) < getTime (ymd 2024 1 1)
   \<and> \<not> spec_due ''u1'' (ymd 2024 1 1) (rent (ymd 2024 0 1) (Some (ymd 2024 0 15)))"
  by code_simp

section \<open>The goal contribution ledger\<close>






















section \<open>The execute pass\<close>






text \<open>Under the schema of the transactions of this variant, the save of every document that
  the loop builds is rejected: the loop sets \<open>isRecurring\<close> and never \<open>recurringFrequency\<close>.
  As soon as one definition is selected, the pass answers with status 500 and has stored
  nothing.\<close>

lemma flat_schema_rejects_materialized: "\<not> flat_schema_accepts (materialize r)"
  by (simp add: flat_schema_accepts_def materialize_def)

lemma execute_flat_schema_status_500:
  assumes "pendingRecurring userId now st \<noteq> []"
  shows "execute flat_schema_accepts userId now st = (Status500, st)"
proof -
  from assms obtain r rs where p: "pendingRecurring userId now st = r # rs"
    by (cases "pendingRecurring userId now st") auto
  show ?thesis
    by (simp add: execute_def p flat_schema_rejects_materialized)
qed

text \<open>
  Claim C10. The claim says that a pass materializes exactly one transaction for every due
  definition and advances its next execution by one step. On 10 April 2024 the rent of user
  \<open>u1\<close>, due since 1 January, is selected by the pass. The loop builds its transaction with
  \<open>isRecurring\<close> set and without the \<open>recurringFrequency\<close> that the transaction schema then
  requires, so \<open>transaction.save()\<close> is rejected: the pass answers with status 500, no
  transaction is stored, and the definition keeps its next execution of 1 January, its last
  execution and its count of 0.
\<close>

theorem execute_due_rent_stores_nothing:
  "pendingRecurring ''u1'' (ymd 2024 3 10)
     \<lparr>recurrings = [rent (ymd 2024 0 1) None], transactions = [], budgets = []\<rparr>
   = [rent (ymd 2024 0 1) None]
   \<and> execute flat_schema_accepts ''u1'' (ymd 2024 3 10)
       \<lparr>recurrings = [rent (ymd 2024 0 1) None], transactions = [], budgets = []\<rparr>
     = (Status500,
        \<lparr>recurrings = [rent (ymd 2024 0 1) None], transactions = [], budgets = []\<rparr>)"
  by code_simp

end
